theory Spec2Isabelle
  imports Complex_Main "HOL-Library.Product_Lexorder" "HOL-Library.Multiset" "HOL-Library.AList"
begin

section \<open>Charger uptime calculator: the model of \<^verbatim>\<open>charger_uptime.py\<close>\<close>

text \<open>
  Times and identifiers are Python integers, hence \<open>int\<close>. A report is the tuple
  \<^verbatim>\<open>(charger_id, start_time, end_time, is_up)\<close> built by \<^verbatim>\<open>parse_input_file\<close>; an
  interval is the pair \<^verbatim>\<open>(start, end)\<close>. Python orders tuples lexicographically, which is
  the order of pairs from \<open>Product_Lexorder\<close>.
\<close>

type_synonym report = "int \<times> int \<times> int \<times> bool"
type_synonym interval = "int \<times> int"

text \<open>
  \<open>ERROR\<close> is \<^verbatim>\<open>print("ERROR"); sys.exit(1)\<close>; \<open>ZeroDivisionError\<close> is the exception
  that \<^verbatim>\<open>//\<close> raises on a zero divisor.
\<close>

datatype error = ERROR | ZeroDivisionError

definition floordiv :: "int \<Rightarrow> int \<Rightarrow> error + int" where
  "floordiv a b = (if b = 0 then Inl ZeroDivisionError else Inr (a div b))"

subsection \<open>\<^verbatim>\<open>parse_input_file\<close> (lines 14-89)\<close>

text \<open>
  What the program takes from outside is gathered in one record: \<open>py_read\<close> is the text
  that \<^verbatim>\<open>open(filepath, 'r').read()\<close> returns, \<open>None\<close> when it raises
  \<^verbatim>\<open>FileNotFoundError\<close> or \<^verbatim>\<open>IOError\<close>; the other fields are Python's built-in
  \<^verbatim>\<open>str.strip()\<close>, \<^verbatim>\<open>str.split()\<close> without argument, \<^verbatim>\<open>int\<close> on a string (\<open>None\<close> when
  it raises \<^verbatim>\<open>ValueError\<close>) and \<^verbatim>\<open>str.lower()\<close>. They are parameters: nothing proved below
  depends on what they compute.
\<close>

record python =
  py_read :: "string \<Rightarrow> string option"
  py_strip :: "string \<Rightarrow> string"
  py_split :: "string \<Rightarrow> string list"
  py_int :: "string \<Rightarrow> int option"
  py_lower :: "string \<Rightarrow> string"

fun split_sep :: "char \<Rightarrow> string \<Rightarrow> string list" where
  \<comment> \<open>\<^verbatim>\<open>s.split(sep)\<close> for a separator of one character, as in line 29\<close>
  "split_sep sep [] = [[]]"
| "split_sep sep (c # cs) =
     (if c = sep then [] # split_sep sep cs
      else case split_sep sep cs of
             [] \<Rightarrow> [[c]]
           | l # ls \<Rightarrow> (c # l) # ls)"

fun find_sections :: "string list \<Rightarrow> int \<Rightarrow> int \<Rightarrow> int \<times> int" where
  \<comment> \<open>lines 36-44: the loop from index \<open>i\<close> on, with the current \<^verbatim>\<open>stations_start\<close>;
      the result is \<^verbatim>\<open>(stations_start, reports_start)\<close>\<close>
  "find_sections [] i stations_start = (stations_start, - 1)"
| "find_sections (line # rest) i stations_start =
     (if line = ''[Stations]'' then find_sections rest (i + 1) (i + 1)
      else if line = ''[Charger Availability Reports]'' then (stations_start, i + 1)
      else find_sections rest (i + 1) stations_start)"

text \<open>
  The dictionary \<^verbatim>\<open>stations\<close> is the association list of its items in iteration order;
  \<^verbatim>\<open>stations[station_id] = charger_ids\<close> replaces the value of a key that is present, at its
  place, and adds a new key at the end, which is \<open>AList.update\<close>.
\<close>

fun parse_stations :: "python \<Rightarrow> string list \<Rightarrow> (int \<times> int list) list \<Rightarrow> error + (int \<times> int list) list" where
  \<comment> \<open>lines 53-64, on the lines \<^verbatim>\<open>lines[i]\<close> of the range in order\<close>
  "parse_stations env [] stations = Inr stations"
| "parse_stations env (line # rest) stations =
     (let parts = py_split env line in
      if length parts < 2 then Inl ERROR
      else case py_int env (parts ! 0) of
             None \<Rightarrow> Inl ERROR
           | Some station_id \<Rightarrow>
               (case those (map (py_int env) (tl parts)) of
                  None \<Rightarrow> Inl ERROR
                | Some charger_ids \<Rightarrow>
                    parse_stations env rest (AList.update station_id charger_ids stations)))"

fun parse_reports :: "python \<Rightarrow> string list \<Rightarrow> report list \<Rightarrow> error + report list" where
  \<comment> \<open>lines 69-87\<close>
  "parse_reports env [] reports = Inr reports"
| "parse_reports env (line # rest) reports =
     (let parts = py_split env line in
      if length parts \<noteq> 4 then Inl ERROR
      else case py_int env (parts ! 0) of
             None \<Rightarrow> Inl ERROR
           | Some charger_id \<Rightarrow>
               (case py_int env (parts ! 1) of
                  None \<Rightarrow> Inl ERROR
                | Some start_time \<Rightarrow>
                    (case py_int env (parts ! 2) of
                       None \<Rightarrow> Inl ERROR
                     | Some end_time \<Rightarrow>
                         (let is_up = (py_lower env (parts ! 3) = ''true'') in
                          if start_time \<ge> end_time then Inl ERROR
                          else parse_reports env rest
                                 (reports @ [(charger_id, start_time, end_time, is_up)])))))"

definition parse_input_file :: "python \<Rightarrow> string \<Rightarrow> error + ((int \<times> int list) list \<times> report list)" where
  "parse_input_file env filepath =
     (case py_read env filepath of
        None \<Rightarrow> Inl ERROR
      | Some text \<Rightarrow>
          let content = py_strip env text;
              lines = map (py_strip env)
                        (filter (\<lambda>line. py_strip env line \<noteq> []) (split_sep CHR 0x0A content))
          in if length lines < 2 then Inl ERROR
             else case find_sections lines 0 (- 1) of
                    (stations_start, reports_start) \<Rightarrow>
                      if stations_start = - 1 \<or> reports_start = - 1 then Inl ERROR
                      else case parse_stations env
                                  (map (\<lambda>i. lines ! nat i) [stations_start..reports_start - 2]) [] of
                             Inl e \<Rightarrow> Inl e
                           | Inr stations \<Rightarrow>
                               (case parse_reports env
                                       (map (\<lambda>i. lines ! nat i) [reports_start..int (length lines) - 1]) [] of
                                  Inl e \<Rightarrow> Inl e
                                | Inr reports \<Rightarrow> Inr (stations, reports)))"

subsection \<open>\<^verbatim>\<open>get_station_reporting_period\<close> (lines 92-114)\<close>

text \<open>
  The loop state is the pair \<^verbatim>\<open>(min_start, max_end)\<close>, each \<^verbatim>\<open>None\<close> or an integer.
  \<open>period_step\<close> is one iteration of the loop of lines 104-109.
\<close>

fun period_step :: "int set \<Rightarrow> int option \<times> int option \<Rightarrow> report \<Rightarrow> int option \<times> int option" where
  "period_step station_chargers (min_start, max_end) (charger_id, start_time, end_time, is_up) =
     (if charger_id \<in> station_chargers then
        ((case min_start of
            None \<Rightarrow> Some start_time
          | Some m \<Rightarrow> if start_time < m then Some start_time else Some m),
         (case max_end of
            None \<Rightarrow> Some end_time
          | Some m \<Rightarrow> if end_time > m then Some end_time else Some m))
      else (min_start, max_end))"

definition get_station_reporting_period :: "int \<Rightarrow> int list \<Rightarrow> report list \<Rightarrow> int \<times> int" where
  "get_station_reporting_period station_id charger_ids reports =
     (let station_chargers = set charger_ids in
      case foldl (period_step station_chargers) (None, None) reports of
        (None, _) \<Rightarrow> (0, 0)
      | (Some _, None) \<Rightarrow> (0, 0)
      | (Some min_start, Some max_end) \<Rightarrow> (min_start, max_end))"

subsection \<open>\<^verbatim>\<open>merge_intervals\<close> (lines 117-138)\<close>

text \<open>
  \<open>merge_step\<close> is one iteration of the loop of lines 128-136 on the list \<^verbatim>\<open>merged\<close>:
  \<^verbatim>\<open>merged[-1]\<close> is \<open>last merged\<close>, assigning to it replaces the last element, and
  \<^verbatim>\<open>append\<close> adds at the end. The list is \<^verbatim>\<open>[intervals[0]]\<close> before the loop and never
  shrinks, so \<^verbatim>\<open>merged[-1]\<close> always exists (lemma \<open>merge_loop_nonempty\<close> below);
  \<^verbatim>\<open>intervals[0]\<close> is read only after the test of line 121.
\<close>

fun merge_step :: "interval list \<Rightarrow> interval \<Rightarrow> interval list" where
  "merge_step merged (current_start, current_end) =
     (case last merged of (last_start, last_end) \<Rightarrow>
        if current_start \<le> last_end
        then butlast merged @ [(last_start, max last_end current_end)]
        else merged @ [(current_start, current_end)])"

definition merge_loop :: "interval list \<Rightarrow> interval list" where
  \<comment> \<open>lines 126-138, on the list as it is after the sort\<close>
  "merge_loop intervals = foldl merge_step [hd intervals] (tl intervals)"

definition merge_intervals :: "interval list \<Rightarrow> interval list" where
  "merge_intervals intervals =
     (if intervals = [] then [] else merge_loop (sort intervals))"

subsection \<open>\<^verbatim>\<open>calculate_station_uptime\<close> (lines 141-179)\<close>

definition collect_up :: "int set \<Rightarrow> report list \<Rightarrow> interval list" where
  \<comment> \<open>lines 159-162\<close>
  "collect_up station_chargers reports =
     map (\<lambda>(charger_id, start_time, end_time, is_up). (start_time, end_time))
       (filter (\<lambda>(charger_id, start_time, end_time, is_up). charger_id \<in> station_chargers \<and> is_up)
          reports)"

fun clip_add :: "int \<Rightarrow> int \<Rightarrow> int \<Rightarrow> interval \<Rightarrow> int" where
  \<comment> \<open>lines 169-175: one iteration of the summing loop\<close>
  "clip_add period_start period_end total_uptime (start, end) =
     (let clipped_start = max start period_start;
          clipped_end = min end period_end
      in if clipped_start < clipped_end
         then total_uptime + (clipped_end - clipped_start)
         else total_uptime)"

definition calculate_station_uptime :: "int \<Rightarrow> int list \<Rightarrow> report list \<Rightarrow> error + int" where
  "calculate_station_uptime station_id charger_ids reports =
     (case get_station_reporting_period station_id charger_ids reports of
        (period_start, period_end) \<Rightarrow>
          if period_start = period_end then Inr 0
          else
            let total_period = period_end - period_start;
                station_chargers = set charger_ids;
                up_intervals = collect_up station_chargers reports;
                merged_up_intervals = merge_intervals up_intervals;
                total_uptime = foldl (clip_add period_start period_end) 0 merged_up_intervals
            in floordiv (total_uptime * 100) total_period)"

subsection \<open>\<^verbatim>\<open>main\<close> (lines 182-215)\<close>

text \<open>
  \<open>main_body\<close> is the part of \<^verbatim>\<open>main\<close> after the call of \<^verbatim>\<open>parse_input_file\<close> (lines
  192-215), as a function of the pair \<^verbatim>\<open>(stations, reports)\<close> that the call returned. The
  result is the sequence of printed pairs \<^verbatim>\<open>station_id uptime\<close>, or \<open>Inl ERROR\<close> when the
  program prints \<^verbatim>\<open>ERROR\<close> and exits with status 1. \<open>main\<close> is the whole function, from
  \<^verbatim>\<open>sys.argv\<close>.
\<close>

fun collect_results :: "(int \<times> int list) list \<Rightarrow> report list \<Rightarrow> (int \<times> int) list \<Rightarrow> error + (int \<times> int) list" where
  \<comment> \<open>lines 207-210; an exception of the callee leaves the loop\<close>
  "collect_results [] reports results = Inr results"
| "collect_results ((station_id, charger_ids) # rest) reports results =
     (case calculate_station_uptime station_id charger_ids reports of
        Inl e \<Rightarrow> Inl e
      | Inr uptime \<Rightarrow> collect_results rest reports (results @ [(station_id, uptime)]))"

definition main_body :: "(int \<times> int list) list \<Rightarrow> report list \<Rightarrow> error + (int \<times> int) list" where
  "main_body stations reports =
     (let all_station_chargers = set (concat (map snd stations));
          report_chargers = set (map fst reports)
      in if \<exists>charger_id \<in> report_chargers. charger_id \<notin> all_station_chargers then Inl ERROR
         else case collect_results stations reports [] of
                Inl e \<Rightarrow> Inl e
              | Inr results \<Rightarrow> Inr (sort results))"

definition main :: "python \<Rightarrow> string list \<Rightarrow> error + (int \<times> int) list" where
  "main env argv =
     (if length argv \<noteq> 2 then Inl ERROR
      else let input_file = argv ! 1
           in case parse_input_file env input_file of
                Inl e \<Rightarrow> Inl e
              | Inr (stations, reports) \<Rightarrow> main_body stations reports)"

section \<open>Notions used to state the properties\<close>

text \<open>The reports of a station: those whose charger belongs to the station's list.\<close>

definition station_reports :: "int list \<Rightarrow> report list \<Rightarrow> report list" where
  "station_reports charger_ids reports =
     filter (\<lambda>(charger_id, start_time, end_time, is_up). charger_id \<in> set charger_ids) reports"

definition report_start :: "report \<Rightarrow> int" where
  "report_start r = (case r of (charger_id, start_time, end_time, is_up) \<Rightarrow> start_time)"

definition report_end :: "report \<Rightarrow> int" where
  "report_end r = (case r of (charger_id, start_time, end_time, is_up) \<Rightarrow> end_time)"

text \<open>
  The integer points of a list of half-open intervals, intervals with \<open>start < end\<close>,
  and lists in which every interval ends strictly before each later one starts.
\<close>

definition points :: "interval list \<Rightarrow> int set" where
  "points xs = (\<Union>(s, e) \<in> set xs. {s..<e})"

definition proper :: "interval list \<Rightarrow> bool" where
  "proper xs = (\<forall>(s, e) \<in> set xs. s < e)"

definition separated :: "interval list \<Rightarrow> bool" where
  "separated xs = sorted_wrt (\<lambda>a b. snd a < fst b) xs"

text \<open>
  The loop of \<^verbatim>\<open>merge_intervals\<close> written as a recursion on the remaining input, with the
  last element of \<^verbatim>\<open>merged\<close> as its argument; \<open>merge_loop_scan\<close> proves that the loop
  computes it.
\<close>

fun scan :: "interval \<Rightarrow> interval list \<Rightarrow> interval list" where
  "scan cur [] = [cur]"
| "scan (last_start, last_end) ((current_start, current_end) # rest) =
     (if current_start \<le> last_end
      then scan (last_start, max last_end current_end) rest
      else (last_start, last_end) # scan (current_start, current_end) rest)"

text \<open>
  The reports that \<^verbatim>\<open>parse_input_file\<close> lets through have \<open>start_time < end_time\<close>
  (lines 80-82).
\<close>

definition valid_reports :: "report list \<Rightarrow> bool" where
  "valid_reports reports = (\<forall>r \<in> set reports. report_start r < report_end r)"

text \<open>
  The up time in the words of the specification: each merged up interval is clipped to the
  window, an interval that is empty after clipping counts zero, and the durations are
  summed.
\<close>

definition clip :: "int \<Rightarrow> int \<Rightarrow> interval \<Rightarrow> interval" where
  "clip window_start window_end i = (max (fst i) window_start, min (snd i) window_end)"

definition duration :: "interval \<Rightarrow> int" where
  "duration i = (if fst i < snd i then snd i - fst i else 0)"

definition total_up :: "int \<Rightarrow> int \<Rightarrow> int list \<Rightarrow> report list \<Rightarrow> int" where
  "total_up window_start window_end charger_ids reports =
     sum_list (map (\<lambda>i. duration (clip window_start window_end i))
       (merge_intervals (collect_up (set charger_ids) reports)))"

text \<open>
  The ticks at which the station is up: the integers \<open>t\<close> that lie in the half-open
  interval of at least one report with \<^verbatim>\<open>is_up\<close> true of a charger of the station. This
  is stated on the reports themselves, without the functions of the program.
\<close>

definition up_ticks :: "int list \<Rightarrow> report list \<Rightarrow> int set" where
  "up_ticks charger_ids reports =
     {t. \<exists>(charger_id, start_time, end_time, is_up) \<in> set reports.
           charger_id \<in> set charger_ids \<and> is_up \<and> start_time \<le> t \<and> t < end_time}"

text \<open>
  The variant of \<^verbatim>\<open>calculate_station_uptime\<close> without the clipping of lines 171-174: the
  loop adds \<^verbatim>\<open>end - start\<close> of every merged interval.
\<close>

definition calculate_station_uptime_unclipped :: "int \<Rightarrow> int list \<Rightarrow> report list \<Rightarrow> error + int" where
  "calculate_station_uptime_unclipped station_id charger_ids reports =
     (case get_station_reporting_period station_id charger_ids reports of
        (period_start, period_end) \<Rightarrow>
          if period_start = period_end then Inr 0
          else
            let total_period = period_end - period_start;
                station_chargers = set charger_ids;
                up_intervals = collect_up station_chargers reports;
                merged_up_intervals = merge_intervals up_intervals;
                total_uptime = foldl (\<lambda>total_uptime (start, end). total_uptime + (end - start)) 0
                                 merged_up_intervals
            in floordiv (total_uptime * 100) total_period)"

section \<open>The observation window\<close>

lemma period_loop_Some:
  "foldl (period_step (set cs)) (Some a, Some b) rs =
     (Some (Min (insert a (report_start ` set (station_reports cs rs)))),
      Some (Max (insert b (report_end ` set (station_reports cs rs)))))"
proof (induction rs arbitrary: a b)
  case Nil
  show ?case by (simp add: station_reports_def)
next
  case (Cons r rs)
  obtain c s e u where r: "r = (c, s, e, u)" by (cases r) auto
  show ?case
  proof (cases "c \<in> set cs")
    case False
    then show ?thesis using Cons.IH[of a b] by (simp add: r station_reports_def)
  next
    case True
    let ?S = "report_start ` set (station_reports cs rs)"
    let ?E = "report_end ` set (station_reports cs rs)"
    have fin: "finite ?S" "finite ?E" by simp_all
    have mn: "Min (insert (if s < a then s else a) ?S) = Min (insert a (insert s ?S))"
      using fin(1) by (cases "?S = {}") (auto simp: min_def)
    have mx: "Max (insert (if b < e then e else b) ?E) = Max (insert b (insert e ?E))"
      using fin(2) by (cases "?E = {}") (auto simp: max_def)
    have step: "period_step (set cs) (Some a, Some b) r =
        (Some (if s < a then s else a), Some (if b < e then e else b))"
      using True by (simp add: r)
    have sr: "station_reports cs (r # rs) = r # station_reports cs rs"
      using True by (simp add: r station_reports_def)
    have se: "report_start r = s" "report_end r = e"
      by (simp_all add: r report_start_def report_end_def)
    have "foldl (period_step (set cs)) (Some a, Some b) (r # rs) =
        foldl (period_step (set cs)) (Some (if s < a then s else a), Some (if b < e then e else b)) rs"
      by (simp only: foldl_Cons step)
    also have "\<dots> = (Some (Min (insert a (insert s ?S))), Some (Max (insert b (insert e ?E))))"
      by (simp only: Cons.IH mn mx)
    finally show ?thesis
      by (simp only: sr se list.set image_insert)
  qed
qed

lemma period_loop_None:
  "foldl (period_step (set cs)) (None, None) rs =
     (if station_reports cs rs = [] then (None, None)
      else (Some (Min (report_start ` set (station_reports cs rs))),
            Some (Max (report_end ` set (station_reports cs rs)))))"
proof (induction rs)
  case Nil
  show ?case by (simp add: station_reports_def)
next
  case (Cons r rs)
  obtain c s e u where r: "r = (c, s, e, u)" by (cases r) auto
  show ?case
  proof (cases "c \<in> set cs")
    case False
    then show ?thesis using Cons.IH by (simp add: r station_reports_def)
  next
    case True
    have step: "period_step (set cs) (None, None) r = (Some s, Some e)"
      using True by (simp add: r)
    have sr: "station_reports cs (r # rs) = r # station_reports cs rs"
      using True by (simp add: r station_reports_def)
    have se: "report_start r = s" "report_end r = e"
      by (simp_all add: r report_start_def report_end_def)
    have "foldl (period_step (set cs)) (None, None) (r # rs) =
        foldl (period_step (set cs)) (Some s, Some e) rs"
      by (simp only: foldl_Cons step)
    then show ?thesis
      by (simp add: period_loop_Some sr se)
  qed
qed

section \<open>The merge loop\<close>

lemma merge_step_nonempty: "merge_step merged cur \<noteq> []"
  by (cases cur) (simp split: prod.splits)

lemma merge_loop_nonempty: "merged \<noteq> [] \<Longrightarrow> foldl merge_step merged rest \<noteq> []"
  by (induction rest arbitrary: merged) (simp_all add: merge_step_nonempty)

lemma merge_loop_scan:
  "merged \<noteq> [] \<Longrightarrow> foldl merge_step merged rest = butlast merged @ scan (last merged) rest"
proof (induction rest arbitrary: merged)
  case Nil
  then show ?case by simp
next
  case (Cons x rest)
  obtain s e where x: "x = (s, e)" by (cases x)
  obtain ls le where l: "last merged = (ls, le)" by (cases "last merged")
  have ne: "merge_step merged x \<noteq> []" by (rule merge_step_nonempty)
  show ?case
  proof (cases "s \<le> le")
    case True
    then have ms: "merge_step merged x = butlast merged @ [(ls, max le e)]"
      by (simp add: x l)
    show ?thesis
      using Cons.IH[OF ne] True by (simp add: ms x l)
  next
    case False
    then have ms: "merge_step merged x = merged @ [(s, e)]"
      by (simp add: x l)
    have "butlast merged @ [(ls, le)] = merged"
      using Cons.prems l by (metis append_butlast_last_id)
    then show ?thesis
      using Cons.IH[OF ne] False by (simp add: ms x l butlast_append)
  qed
qed

lemma merge_loop_eq_scan: "merge_loop ys = scan (hd ys) (tl ys)"
  by (simp add: merge_loop_def merge_loop_scan)

lemma merge_intervals_scan:
  "merge_intervals xs = (if xs = [] then [] else scan (hd (sort xs)) (tl (sort xs)))"
  by (simp add: merge_intervals_def merge_loop_eq_scan)

lemma scan_starts: 
  "sorted (map fst (cur # rest)) \<Longrightarrow> x \<in> set (scan cur rest) \<Longrightarrow> fst cur \<le> fst x"
proof (induction cur rest arbitrary: x rule: scan.induct)
  case (1 cur)
  then show ?case by simp
next
  case (2 ls le s e rest)
  show ?case
  proof (cases "s \<le> le")
    case True
    have "sorted (map fst ((ls, max le e) # rest))" using "2.prems"(1) by auto
    then show ?thesis using "2.IH"(1)[OF True, of x] "2.prems"(2) True by simp
  next
    case False
    have srt: "sorted (map fst ((s, e) # rest))" using "2.prems"(1) by simp
    have "ls \<le> s" using "2.prems"(1) by simp
    then show ?thesis using "2.IH"(2)[OF False srt, of x] "2.prems"(2) False by auto
  qed
qed

lemma scan_proper:
  "proper (cur # rest) \<Longrightarrow> proper (scan cur rest)"
proof (induction cur rest rule: scan.induct)
  case (1 cur)
  then show ?case by simp
next
  case (2 ls le s e rest)
  show ?case
  proof (cases "s \<le> le")
    case True
    have "proper ((ls, max le e) # rest)" using "2.prems" by (auto simp: proper_def)
    then show ?thesis using "2.IH"(1)[OF True] True by simp
  next
    case False
    have "proper ((s, e) # rest)" using "2.prems" by (auto simp: proper_def)
    then show ?thesis using "2.IH"(2)[OF False] False "2.prems" by (auto simp: proper_def)
  qed
qed

lemma scan_separated:
  "sorted (map fst (cur # rest)) \<Longrightarrow> separated (scan cur rest)"
proof (induction cur rest rule: scan.induct)
  case (1 cur)
  then show ?case by (simp add: separated_def)
next
  case (2 ls le s e rest)
  show ?case
  proof (cases "s \<le> le")
    case True
    have "sorted (map fst ((ls, max le e) # rest))" using "2.prems"(1) by auto
    then show ?thesis using "2.IH"(1)[OF True] True by simp
  next
    case False
    have srt: "sorted (map fst ((s, e) # rest))" using "2.prems"(1) by simp
    have "\<forall>x \<in> set (scan (s, e) rest). le < fst x"
      using scan_starts[OF srt] False by fastforce
    then show ?thesis using "2.IH"(2)[OF False srt] False by (simp add: separated_def)
  qed
qed

lemma scan_points:
  "sorted (map fst (cur # rest)) \<Longrightarrow> points (scan cur rest) = points (cur # rest)"
proof (induction cur rest rule: scan.induct)
  case (1 cur)
  then show ?case by simp
next
  case (2 ls le s e rest)
  show ?case
  proof (cases "s \<le> le")
    case True
    have srt: "sorted (map fst ((ls, max le e) # rest))" using "2.prems" by auto
    have "ls \<le> s" using "2.prems" by simp
    then have "{ls..<max le e} = {ls..<le} \<union> {s..<e}" using True by auto
    then show ?thesis using "2.IH"(1)[OF True srt] True by (simp add: points_def Un_assoc)
  next
    case False
    have srt: "sorted (map fst ((s, e) # rest))" using "2.prems" by simp
    show ?thesis using "2.IH"(2)[OF False srt] False by (simp add: points_def)
  qed
qed

lemma scan_ends:
  "x \<in> set (scan cur rest) \<Longrightarrow> fst x \<in> fst ` set (cur # rest) \<and> snd x \<in> snd ` set (cur # rest)"
proof (induction cur rest arbitrary: x rule: scan.induct)
  case (1 cur)
  then show ?case by simp
next
  case (2 ls le s e rest)
  show ?case
  proof (cases "s \<le> le")
    case True
    have "max le e = le \<or> max le e = e" by (simp add: max_def)
    then show ?thesis using "2.IH"(1)[OF True, of x] "2.prems" True by auto
  next
    case False
    then show ?thesis using "2.IH"(2)[OF False, of x] "2.prems" by auto
  qed
qed

lemma sorted_fst_sort: "sorted (map fst (sort (xs :: interval list)))"
proof -
  have "sorted_wrt (\<lambda>a b. fst a \<le> fst b) (sort xs)"
    by (rule sorted_wrt_mono_rel[of _ "(\<le>)"]) (auto simp: less_eq_prod_def)
  then show ?thesis by (simp add: sorted_map)
qed

lemma sort_collapse: "xs \<noteq> [] \<Longrightarrow> hd (sort xs) # tl (sort xs) = sort xs"
  by (metis hd_Cons_tl length_sort length_0_conv)

lemma merge_separated: "separated (merge_intervals xs)"
proof (cases "xs = []")
  case True
  then show ?thesis by (simp add: merge_intervals_def separated_def)
next
  case False
  have "sorted (map fst (hd (sort xs) # tl (sort xs)))"
    using sorted_fst_sort[of xs] by (simp only: sort_collapse[OF False])
  then show ?thesis using False by (simp add: merge_intervals_scan scan_separated)
qed

lemma proper_sort: "proper (sort xs) = proper xs"
  by (simp add: proper_def)

lemma points_sort: "points (sort xs) = points xs"
  by (simp add: points_def)

lemma merge_proper: "proper xs \<Longrightarrow> proper (merge_intervals xs)"
proof (cases "xs = []")
  case True
  then show ?thesis by (simp add: merge_intervals_def proper_def)
next
  case False
  assume "proper xs"
  then have "proper (hd (sort xs) # tl (sort xs))"
    by (simp only: sort_collapse[OF False] proper_sort)
  then show ?thesis using False by (simp add: merge_intervals_scan scan_proper)
qed

lemma merge_points: "points (merge_intervals xs) = points xs"
proof (cases "xs = []")
  case True
  then show ?thesis by (simp add: merge_intervals_def)
next
  case False
  have srt: "sorted (map fst (hd (sort xs) # tl (sort xs)))"
    using sorted_fst_sort[of xs] by (simp only: sort_collapse[OF False])
  have "points (merge_intervals xs) = points (hd (sort xs) # tl (sort xs))"
    using False by (simp add: merge_intervals_scan scan_points[OF srt])
  then show ?thesis by (simp only: sort_collapse[OF False] points_sort)
qed

lemma merge_ends:
  "x \<in> set (merge_intervals xs) \<Longrightarrow> fst x \<in> fst ` set xs \<and> snd x \<in> snd ` set xs"
proof (cases "xs = []")
  case True
  assume "x \<in> set (merge_intervals xs)"
  then show ?thesis using True by (simp add: merge_intervals_def)
next
  case False
  assume "x \<in> set (merge_intervals xs)"
  then have "x \<in> set (scan (hd (sort xs)) (tl (sort xs)))"
    using False by (simp add: merge_intervals_scan)
  from scan_ends[OF this] have
    "fst x \<in> fst ` set (hd (sort xs) # tl (sort xs)) \<and> snd x \<in> snd ` set (hd (sort xs) # tl (sort xs))" .
  then show ?thesis by (simp only: sort_collapse[OF False] set_sort)
qed

subsection \<open>Separated lists of proper intervals are determined by their points\<close>

lemma points_Nil [simp]: "points [] = {}"
  by (simp add: points_def)

lemma points_Cons: "points ((s, e) # xs) = {s..<e} \<union> points xs"
  by (simp add: points_def)

lemma separated_Cons:
  "separated ((a, b) # xs) = ((\<forall>x \<in> set xs. b < fst x) \<and> separated xs)"
  by (simp add: separated_def)

lemma proper_Cons: "proper ((a, b) # xs) = (a < b \<and> proper xs)"
  by (simp add: proper_def)

lemma points_above:
  assumes "\<forall>x \<in> set xs. b < fst x" and "p \<in> points xs"
  shows "b < p"
  using assms by (fastforce simp: points_def)

lemma canonical_unique:
  "separated xs \<Longrightarrow> proper xs \<Longrightarrow> separated ys \<Longrightarrow> proper ys \<Longrightarrow>
   points xs = points ys \<Longrightarrow> xs = ys"
proof (induction xs arbitrary: ys)
  case Nil
  show ?case
  proof (cases ys)
    case Nil
    then show ?thesis by simp
  next
    case (Cons y ys')
    obtain c d where "y = (c, d)" by (cases y)
    then have "c \<in> points ys" using Nil.prems(4) Cons by (simp add: points_Cons proper_Cons)
    then show ?thesis using Nil.prems(5) by simp
  qed
next
  case (Cons x xs)
  obtain a b where x: "x = (a, b)" by (cases x)
  have ab: "a < b" and pxs: "proper xs" using Cons.prems(2) by (simp_all add: x proper_Cons)
  have above_x: "\<forall>z \<in> set xs. b < fst z" and sxs: "separated xs"
    using Cons.prems(1) by (simp_all add: x separated_Cons)
  have a_in: "a \<in> points (x # xs)" using ab by (simp add: x points_Cons)
  show ?case
  proof (cases ys)
    case Nil
    then show ?thesis using a_in Cons.prems(5) by simp
  next
    case (Cons y ys')
    obtain c d where y: "y = (c, d)" by (cases y)
    have cd: "c < d" and pys: "proper ys'" using Cons.prems(4) by (simp_all add: Cons y proper_Cons)
    have above_y: "\<forall>z \<in> set ys'. d < fst z" and sys: "separated ys'"
      using Cons.prems(3) by (simp_all add: Cons y separated_Cons)
    have eq: "{a..<b} \<union> points xs = {c..<d} \<union> points ys'"
      using Cons.prems(5) by (simp add: Cons x y points_Cons)
    have xs_above: "\<And>p. p \<in> points xs \<Longrightarrow> b < p" using points_above[OF above_x] .
    have ys_above: "\<And>p. p \<in> points ys' \<Longrightarrow> d < p" using points_above[OF above_y] .
    have "a \<in> {c..<d} \<union> points ys'" using eq ab by auto
    then have ca: "c \<le> a" using ys_above cd by fastforce
    have "c \<in> {a..<b} \<union> points xs" using eq cd by auto
    then have ac: "a \<le> c" using xs_above ab by fastforce
    have a_c: "a = c" using ca ac by simp
    have b_notin: "b \<notin> {a..<b} \<union> points xs" using xs_above by auto
    have d_notin: "d \<notin> {c..<d} \<union> points ys'" using ys_above by auto
    have "\<not> b < d"
    proof
      assume "b < d"
      then have "b \<in> {c..<d}" using a_c ab by simp
      then show False using b_notin eq by auto
    qed
    moreover have "\<not> d < b"
    proof
      assume "d < b"
      then have "d \<in> {a..<b}" using a_c cd by simp
      then show False using d_notin eq by auto
    qed
    ultimately have b_d: "b = d" by simp
    have "points xs = points ys'"
    proof (rule set_eqI, rule iffI)
      fix p
      assume p: "p \<in> points xs"
      then have "p \<in> {c..<d} \<union> points ys'" using eq by blast
      moreover have "p \<notin> {c..<d}" using xs_above[OF p] b_d by simp
      ultimately show "p \<in> points ys'" by blast
    next
      fix p
      assume p: "p \<in> points ys'"
      then have "p \<in> {a..<b} \<union> points xs" using eq by blast
      moreover have "p \<notin> {a..<b}" using ys_above[OF p] b_d by simp
      ultimately show "p \<in> points xs" by blast
    qed
    then have "xs = ys'" using Cons.IH[OF sxs pxs sys pys] by simp
    then show ?thesis by (simp add: Cons x y a_c b_d)
  qed
qed

lemma reporting_period_eq:
  "get_station_reporting_period station_id charger_ids reports =
     (if station_reports charger_ids reports = [] then (0, 0)
      else (Min (report_start ` set (station_reports charger_ids reports)),
            Max (report_end ` set (station_reports charger_ids reports))))"
  by (simp add: get_station_reporting_period_def period_loop_None)

section \<open>Properties of the window resolver\<close>

text \<open>
  Claim C3: \<^verbatim>\<open>get_station_reporting_period\<close> returns the minimum start and the maximum end
  over the reports whose charger belongs to the station's list, and \<open>(0, 0)\<close> when there
  is no such report.
\<close>

theorem window_is_min_start_max_end:
  "get_station_reporting_period station_id charger_ids reports =
     (if station_reports charger_ids reports = [] then (0, 0)
      else (Min (report_start ` set (station_reports charger_ids reports)),
            Max (report_end ` set (station_reports charger_ids reports))))"
  by (rule reporting_period_eq)

theorem window_is_min_start_max_end_witness:
  "get_station_reporting_period 0 [1001, 1002]
       [(1001, 0, 100, True), (1001, 200, 300, False), (1002, 50, 150, True), (1003, 25, 75, True)]
     = (0, 300)
   \<and> get_station_reporting_period 0 [9999]
       [(1001, 0, 100, True), (1001, 200, 300, False), (1002, 50, 150, True), (1003, 25, 75, True)]
     = (0, 0)"
  using window_is_min_start_max_end[of 0 "[1001, 1002]"
          "[(1001, 0, 100, True), (1001, 200, 300, False), (1002, 50, 150, True), (1003, 25, 75, True)]"]
        window_is_min_start_max_end[of 0 "[9999]"
          "[(1001, 0, 100, True), (1001, 200, 300, False), (1002, 50, 150, True), (1003, 25, 75, True)]"]
  by (simp add: station_reports_def report_start_def report_end_def)

section \<open>Properties of the interval merger\<close>

lemma separated_nth:
  "separated xs \<Longrightarrow> Suc i < length xs \<Longrightarrow> snd (xs ! i) < fst (xs ! Suc i)"
  unfolding separated_def by (rule sorted_wrt_nth_less) simp_all

lemma separated_sorted_starts:
  "separated xs \<Longrightarrow> proper xs \<Longrightarrow> sorted (map fst xs)"
proof (induction xs)
  case Nil
  then show ?case by simp
next
  case (Cons x xs)
  obtain a b where x: "x = (a, b)" by (cases x)
  have "a < b" using Cons.prems(2) by (simp add: x proper_Cons)
  moreover have "\<forall>z \<in> set xs. b < fst z" using Cons.prems(1) by (simp add: x separated_Cons)
  ultimately have "\<forall>z \<in> set xs. a \<le> fst z" by fastforce
  moreover have "sorted (map fst xs)"
    using Cons by (simp add: x proper_Cons separated_Cons)
  ultimately show ?case by (simp add: x)
qed

text \<open>
  Claim C7: when every interval has \<open>start < end\<close>, the output of \<^verbatim>\<open>merge_intervals\<close>
  is sorted by start and each interval ends strictly before the next one starts, so two
  touching intervals are never left side by side.
\<close>

theorem merged_strictly_separated:
  assumes "proper intervals"
  shows "sorted (map fst (merge_intervals intervals)) \<and>
         (\<forall>i. Suc i < length (merge_intervals intervals) \<longrightarrow>
              snd (merge_intervals intervals ! i) < fst (merge_intervals intervals ! Suc i))"
proof
  show "sorted (map fst (merge_intervals intervals))"
    using merge_separated merge_proper[OF assms] by (rule separated_sorted_starts)
next
  show "\<forall>i. Suc i < length (merge_intervals intervals) \<longrightarrow>
              snd (merge_intervals intervals ! i) < fst (merge_intervals intervals ! Suc i)"
    using separated_nth[OF merge_separated] by blast
qed

theorem merged_strictly_separated_witness:
  "proper [(50, 100), (0, 50), (200, 300)] \<and>
   merge_intervals [(50, 100), (0, 50), (200, 300)] = [(0, 100), (200, 300)] \<and>
   sorted (map fst (merge_intervals [(50, 100), (0, 50), (200, 300)])) \<and>
   snd (merge_intervals [(50, 100), (0, 50), (200, 300)] ! 0)
     < fst (merge_intervals [(50, 100), (0, 50), (200, 300)] ! Suc 0)"
proof -
  have p: "proper [(50, 100), (0, 50), (200, 300)]" by (simp add: proper_def)
  have m: "merge_intervals [(50, 100), (0, 50), (200, 300)] = [(0, 100), (200, 300)]"
    by (simp add: merge_intervals_def merge_loop_def)
  have l: "Suc 0 < length (merge_intervals [(50, 100), (0, 50), (200, 300)])"
    by (simp only: m) simp
  show ?thesis using p m l merged_strictly_separated[OF p] by blast
qed

lemma sort_cong_mset: "mset ys = mset xs \<Longrightarrow> sort ys = sort xs"
  by (rule properties_for_sort) simp_all

lemma points_cong_mset: "mset ys = mset xs \<Longrightarrow> points ys = points xs"
  using mset_eq_setD[of ys xs] by (simp add: points_def)

lemma proper_cong_mset: "mset ys = mset xs \<Longrightarrow> proper ys = proper xs"
  using mset_eq_setD[of ys xs] by (simp add: proper_def)

lemma merge_loop_canonical:
  assumes "ys \<noteq> []" "sorted (map fst ys)" "proper ys"
  shows "separated (merge_loop ys)" "proper (merge_loop ys)" "points (merge_loop ys) = points ys"
proof -
  have c: "hd ys # tl ys = ys" using assms(1) by simp
  have s: "sorted (map fst (hd ys # tl ys))" and p: "proper (hd ys # tl ys)"
    using assms(2,3) by (simp_all only: c)
  show "separated (merge_loop ys)" using scan_separated[OF s] by (simp add: merge_loop_eq_scan)
  show "proper (merge_loop ys)" using scan_proper[OF p] by (simp add: merge_loop_eq_scan)
  show "points (merge_loop ys) = points ys"
    using scan_points[OF s] by (simp only: merge_loop_eq_scan c)
qed

text \<open>
  Claim C8: the result of \<^verbatim>\<open>merge_intervals\<close> is the same for every arrangement of the
  same intervals (each with \<open>start < end\<close>). The second conjunct is the tie-break: the loop
  run on any arrangement that is sorted by start alone, whatever the order among equal
  starts, gives that same result.
\<close>

theorem merge_order_independent:
  assumes "proper xs" and "mset ys = mset xs"
  shows "merge_intervals ys = merge_intervals xs \<and>
         (ys \<noteq> [] \<and> sorted (map fst ys) \<longrightarrow> merge_loop ys = merge_intervals xs)"
proof (rule conjI)
  have e: "(ys = []) = (xs = [])" using mset_eq_setD[OF assms(2)] by auto
  have s: "sort ys = sort xs" by (rule sort_cong_mset[OF assms(2)])
  show "merge_intervals ys = merge_intervals xs"
    unfolding merge_intervals_def by (simp only: e s)
next
  show "ys \<noteq> [] \<and> sorted (map fst ys) \<longrightarrow> merge_loop ys = merge_intervals xs"
  proof (rule impI, elim conjE)
    assume ne: "ys \<noteq> []" and srt: "sorted (map fst ys)"
    have py: "proper ys" using assms(1) by (simp only: proper_cong_mset[OF assms(2)])
    have "points (merge_loop ys) = points ys" by (rule merge_loop_canonical(3)[OF ne srt py])
    also have "\<dots> = points xs" by (rule points_cong_mset[OF assms(2)])
    also have "\<dots> = points (merge_intervals xs)" by (rule merge_points[symmetric])
    finally have pts: "points (merge_loop ys) = points (merge_intervals xs)" .
    show "merge_loop ys = merge_intervals xs"
      by (rule canonical_unique[OF merge_loop_canonical(1)[OF ne srt py]
            merge_loop_canonical(2)[OF ne srt py] merge_separated merge_proper[OF assms(1)] pts])
  qed
qed

theorem merge_order_independent_witness:
  "proper [(0, 50), (0, 20), (40, 60), (100, 150)] \<and>
   mset [(100, 150), (0, 50), (40, 60), (0, 20)] = mset [(0, 50), (0, 20), (40, 60), (100, 150)] \<and>
   merge_intervals [(100, 150), (0, 50), (40, 60), (0, 20)] = [(0, 60), (100, 150)] \<and>
   merge_intervals [(0, 50), (0, 20), (40, 60), (100, 150)] = [(0, 60), (100, 150)] \<and>
   sorted (map fst [(0, 50), (0, 20), (40, 60), (100::int, 150::int)]) \<and>
   merge_loop [(0, 50), (0, 20), (40, 60), (100, 150)] = [(0, 60), (100, 150)]"
proof -
  have p: "proper [(0, 50), (0, 20), (40, 60), (100, 150)]" by (simp add: proper_def)
  have m: "mset [(100, 150), (0, 50), (40, 60), (0, 20)] = mset [(0, 50), (0, 20), (40, 60), (100::int, 150::int)]"
    by (simp add: add_mset_commute)
  have r: "merge_intervals [(0, 50), (0, 20), (40, 60), (100, 150)] = [(0, 60), (100, 150)]"
    by (simp add: merge_intervals_def merge_loop_def)
  have s: "sorted (map fst [(0, 50), (0, 20), (40, 60), (100::int, 150::int)])" by simp
  show ?thesis
    using p m r s merge_order_independent[OF p m] merge_order_independent[OF p refl]
    by simp
qed

subsection \<open>No list of fewer intervals covers the same points\<close>

lemma points_iff: "p \<in> points xs \<longleftrightarrow> (\<exists>x \<in> set xs. fst x \<le> p \<and> p < snd x)"
  by (auto simp: points_def case_prod_beta)

lemma separated_apart:
  "separated xs \<Longrightarrow> x \<in> set xs \<Longrightarrow> z \<in> set xs \<Longrightarrow> x = z \<or> snd x < fst z \<or> snd z < fst x"
proof (induction xs)
  case Nil
  then show ?case by simp
next
  case (Cons y ys)
  obtain a b where y: "y = (a, b)" by (cases y)
  have above: "\<forall>w \<in> set ys. b < fst w" and s: "separated ys"
    using Cons.prems(1) by (simp_all add: y separated_Cons)
  show ?case
  proof (cases "x = y")
    case True
    then show ?thesis using Cons.prems(3) above y by auto
  next
    case xy: False
    show ?thesis
    proof (cases "z = y")
      case True
      then show ?thesis using Cons.prems(2) xy above y by auto
    next
      case False
      then show ?thesis using Cons.IH[OF s] Cons.prems(2,3) xy by simp
    qed
  qed
qed

lemma separated_distinct: "separated xs \<Longrightarrow> proper xs \<Longrightarrow> distinct xs"
proof (induction xs)
  case Nil
  then show ?case by simp
next
  case (Cons x xs)
  obtain a b where x: "x = (a, b)" by (cases x)
  have ab: "a < b" and pxs: "proper xs" using Cons.prems(2) by (simp_all add: x proper_Cons)
  have above: "\<forall>z \<in> set xs. b < fst z" and sxs: "separated xs"
    using Cons.prems(1) by (simp_all add: x separated_Cons)
  have "x \<notin> set xs" using above ab x by fastforce
  then show ?case using Cons.IH[OF sxs pxs] by simp
qed

lemma end_not_covered:
  assumes s: "separated xs" and p: "proper xs" and x: "x \<in> set xs"
  shows "snd x \<notin> points xs"
proof
  assume "snd x \<in> points xs"
  then obtain z where z: "z \<in> set xs" "fst z \<le> snd x" "snd x < snd z"
    unfolding points_iff by blast
  have px: "fst x < snd x" using p x by (auto simp: proper_def)
  from separated_apart[OF s x z(1)] show False using z(2,3) px by auto
qed

lemma one_cover_one_run:
  assumes s: "separated xs" and p: "proper xs"
    and x: "x \<in> set xs" and z: "z \<in> set xs"
    and sub: "{fst y..<snd y} \<subseteq> points xs"
    and xin: "fst x \<in> {fst y..<snd y}" and zin: "fst z \<in> {fst y..<snd y}"
  shows "x = z"
proof (rule ccontr)
  assume ne: "x \<noteq> z"
  have px: "fst x < snd x" and pz: "fst z < snd z" using p x z by (auto simp: proper_def)
  from separated_apart[OF s x z] ne have "snd x < fst z \<or> snd z < fst x" by simp
  then show False
  proof
    assume "snd x < fst z"
    then have "snd x \<in> {fst y..<snd y}" using xin zin px by simp
    then show False using sub end_not_covered[OF s p x] by blast
  next
    assume "snd z < fst x"
    then have "snd z \<in> {fst y..<snd y}" using xin zin pz by simp
    then show False using sub end_not_covered[OF s p z] by blast
  qed
qed

lemma separated_minimal:
  assumes s: "separated xs" and p: "proper xs" and e: "points ys = points xs"
  shows "length xs \<le> length ys"
proof -
  define f where "f x = (SOME y. y \<in> set ys \<and> fst x \<in> {fst y..<snd y})" for x :: interval
  have fx: "f x \<in> set ys \<and> fst x \<in> {fst (f x)..<snd (f x)}" if x: "x \<in> set xs" for x
  proof -
    have "fst x < snd x" using p x by (auto simp: proper_def)
    then have "fst x \<in> points xs" using x unfolding points_iff by blast
    then have "fst x \<in> points ys" by (simp only: e)
    then have "\<exists>y. y \<in> set ys \<and> fst x \<in> {fst y..<snd y}" by (simp add: points_iff Bex_def)
    then show ?thesis unfolding f_def by (rule someI_ex)
  qed
  have sub: "{fst y..<snd y} \<subseteq> points xs" if y: "y \<in> set ys" for y
  proof -
    have "{fst y..<snd y} \<subseteq> points ys"
    proof
      fix q
      assume "q \<in> {fst y..<snd y}"
      then have "\<exists>w \<in> set ys. fst w \<le> q \<and> q < snd w" using y by auto
      then show "q \<in> points ys" by (simp only: points_iff)
    qed
    then show ?thesis by (simp only: e)
  qed
  have inj: "inj_on f (set xs)"
  proof (rule inj_onI)
    fix x z
    assume x: "x \<in> set xs" and z: "z \<in> set xs" and eq: "f x = f z"
    have zin: "fst z \<in> {fst (f x)..<snd (f x)}" using fx[OF z] by (simp only: eq)
    show "x = z"
      using one_cover_one_run[OF s p x z sub[of "f x"]] fx[OF x] zin by blast
  qed
  have img: "f ` set xs \<subseteq> set ys" using fx by blast
  have "length xs = card (set xs)" using separated_distinct[OF s p] by (simp add: distinct_card)
  also have "\<dots> \<le> card (set ys)" by (rule card_inj_on_le[OF inj img]) simp
  also have "\<dots> \<le> length ys" by (rule card_length)
  finally show ?thesis .
qed

lemma merge_two:
  assumes "a < b" "c < d" "a \<le> c"
  shows "merge_intervals [(a, b), (c, d)] =
           (if c \<le> b then [(a, max b d)] else [(a, b), (c, d)])"
  using assms by (auto simp: merge_intervals_def merge_loop_def max_def)

text \<open>
  Claim C2: for intervals with \<open>start < end\<close>, \<^verbatim>\<open>merge_intervals\<close> returns intervals
  that cover exactly the points of the input, are sorted by start and strictly apart; no
  list of intervals with the same points is shorter, and every list of strictly apart
  intervals with the same points is that result. A next interval whose start is at most the
  end of the current merged one (touching included) is merged into it with the maximum of the
  two ends, and the empty input gives the empty output.
\<close>

theorem merge_intervals_contract:
  assumes "proper intervals"
  shows "points (merge_intervals intervals) = points intervals
       \<and> proper (merge_intervals intervals)
       \<and> separated (merge_intervals intervals)
       \<and> sorted (map fst (merge_intervals intervals))
       \<and> (\<forall>ys. points ys = points intervals \<longrightarrow> length (merge_intervals intervals) \<le> length ys)
       \<and> (\<forall>ys. separated ys \<and> proper ys \<and> points ys = points intervals
               \<longrightarrow> ys = merge_intervals intervals)
       \<and> (\<forall>merged current_start current_end. current_start \<le> snd (last merged) \<longrightarrow>
             merge_step merged (current_start, current_end)
               = butlast merged @ [(fst (last merged), max (snd (last merged)) current_end)])
       \<and> (\<forall>merged current_start current_end. snd (last merged) < current_start \<longrightarrow>
             merge_step merged (current_start, current_end)
               = merged @ [(current_start, current_end)])
       \<and> (\<forall>a b c d. a < b \<and> c < d \<and> a \<le> c \<and> c \<le> b \<longrightarrow>
             merge_intervals [(a, b), (c, d)] = [(a, max b d)])
       \<and> merge_intervals [] = []"
proof -
  let ?out = "merge_intervals intervals"
  have pts: "points ?out = points intervals" by (rule merge_points)
  have prp: "proper ?out" by (rule merge_proper[OF assms])
  have sep: "separated ?out" by (rule merge_separated)
  have srt: "sorted (map fst ?out)" by (rule separated_sorted_starts[OF sep prp])
  have mn: "\<forall>ys. points ys = points intervals \<longrightarrow> length ?out \<le> length ys"
  proof (intro allI impI)
    fix ys
    assume "points ys = points intervals"
    then have "points ys = points ?out" by (simp only: pts)
    then show "length ?out \<le> length ys" by (rule separated_minimal[OF sep prp])
  qed
  have un: "\<forall>ys. separated ys \<and> proper ys \<and> points ys = points intervals \<longrightarrow> ys = ?out"
  proof (intro allI impI, elim conjE)
    fix ys
    assume a: "separated ys" "proper ys" "points ys = points intervals"
    have "points ys = points ?out" using a(3) by (simp only: pts)
    then show "ys = ?out" by (rule canonical_unique[OF a(1,2) sep prp])
  qed
  have st1: "\<forall>merged current_start current_end. current_start \<le> snd (last merged) \<longrightarrow>
             merge_step merged (current_start, current_end)
               = butlast merged @ [(fst (last merged), max (snd (last merged)) current_end)]"
    by (simp add: case_prod_beta)
  have st2: "\<forall>merged current_start current_end. snd (last merged) < current_start \<longrightarrow>
             merge_step merged (current_start, current_end)
               = merged @ [(current_start, current_end)]"
    by (simp add: case_prod_beta)
  have tw: "\<forall>a b c d. a < b \<and> c < d \<and> a \<le> c \<and> c \<le> b \<longrightarrow>
             merge_intervals [(a, b), (c, d)] = [(a, max b d)]"
    by (simp add: merge_two)
  have em: "merge_intervals [] = []" by (simp add: merge_intervals_def)
  show ?thesis using pts prp sep srt mn un st1 st2 tw em by (intro conjI)
qed

theorem merge_intervals_contract_witness:
  "proper [(50, 100), (0, 50), (300, 400), (60, 70)] \<and>
   merge_intervals [(50, 100), (0, 50), (300, 400), (60, 70)] = [(0, 100), (300, 400)] \<and>
   points (merge_intervals [(50, 100), (0, 50), (300, 400), (60, 70)])
     = points [(50, 100), (0, 50), (300, 400), (60, 70)] \<and>
   length (merge_intervals [(50, 100), (0, 50), (300, 400), (60, 70)])
     \<le> length ([(0, 100), (300, 350), (350, 400)] :: interval list) \<and>
   merge_step [(0, 50)] (50, 100) = [(0, 100)]"
proof -
  have p: "proper [(50, 100), (0, 50), (300, 400), (60, 70)]" by (simp add: proper_def)
  have m: "merge_intervals [(50, 100), (0, 50), (300, 400), (60, 70)] = [(0, 100), (300, 400)]"
    by (simp add: merge_intervals_def merge_loop_def)
  note c = merge_intervals_contract[OF p]
  have pts: "points (merge_intervals [(50, 100), (0, 50), (300, 400), (60, 70)])
     = points [(50, 100), (0, 50), (300, 400), (60, 70)]" by (rule c[THEN conjunct1])
  have "{300..<350} \<union> {350..<400} = {300..<400::int}"
    by (rule ivl_disj_un_two(3)) simp_all
  then have "points [(0, 100), (300, 350), (350, 400)] = points [(0, 100), (300, 400)]"
    by (simp add: points_def)
  then have e: "points [(0, 100), (300, 350), (350, 400)]
      = points [(50, 100), (0, 50), (300, 400), (60, 70)]"
    using pts by (simp only: m)
  have l: "length (merge_intervals [(50, 100), (0, 50), (300, 400), (60, 70)])
     \<le> length ([(0, 100), (300, 350), (350, 400)] :: interval list)"
    by (rule c[THEN conjunct2, THEN conjunct2, THEN conjunct2, THEN conjunct2, THEN conjunct1,
          rule_format, OF e])
  have s: "merge_step [(0, 50)] (50, 100) = [(0, 100)]" by simp
  show ?thesis using p m pts l s by (intro conjI)
qed

section \<open>Properties of the uptime calculator\<close>

subsection \<open>The summing loops and the bounds of the up time\<close>

lemma clip_loop:
  "foldl (clip_add ps pe) acc xs = acc + sum_list (map (\<lambda>i. duration (clip ps pe i)) xs)"
proof (induction xs arbitrary: acc)
  case Nil
  show ?case by simp
next
  case (Cons x xs)
  obtain s e where x: "x = (s, e)" by (cases x)
  have "clip_add ps pe acc x = acc + duration (clip ps pe x)"
    by (simp add: x clip_def duration_def Let_def)
  then show ?case using Cons.IH[of "acc + duration (clip ps pe x)"] by simp
qed

lemma plain_loop:
  "foldl (\<lambda>total_uptime (start, end). total_uptime + (end - start)) (acc :: int) xs
     = acc + sum_list (map (\<lambda>i. snd i - fst i) xs)"
proof (induction xs arbitrary: acc)
  case Nil
  show ?case by simp
next
  case (Cons x xs)
  obtain s e where x: "x = (s, e)" by (cases x)
  show ?case using Cons.IH[of "acc + (e - s)"] by (simp add: x)
qed

lemma calculate_unfold:
  assumes "get_station_reporting_period station_id charger_ids reports = (ws, we)"
  shows "calculate_station_uptime station_id charger_ids reports =
           (if ws = we then Inr 0
            else floordiv (total_up ws we charger_ids reports * 100) (we - ws))"
  by (simp add: calculate_station_uptime_def assms Let_def clip_loop total_up_def)

lemma collect_up_origin:
  assumes "x \<in> set (collect_up (set cs) rs)"
  shows "\<exists>r \<in> set (station_reports cs rs). x = (report_start r, report_end r)"
  using assms
  by (auto simp: collect_up_def station_reports_def report_start_def report_end_def)

lemma collect_up_proper: "valid_reports rs \<Longrightarrow> proper (collect_up S rs)"
  by (auto simp: valid_reports_def proper_def collect_up_def report_start_def report_end_def)

lemma window_bounds:
  assumes w: "get_station_reporting_period sid cs rs = (ws, we)"
    and r: "r \<in> set (station_reports cs rs)"
  shows "ws \<le> report_start r" and "report_end r \<le> we"
proof -
  have ne: "station_reports cs rs \<noteq> []" using r by auto
  have ws: "ws = Min (report_start ` set (station_reports cs rs))"
    and we: "we = Max (report_end ` set (station_reports cs rs))"
    using w ne by (simp_all add: reporting_period_eq)
  show "ws \<le> report_start r" unfolding ws using r by (intro Min_le) simp_all
  show "report_end r \<le> we" unfolding we using r by (intro Max_ge) simp_all
qed

lemma merged_up_within:
  assumes w: "get_station_reporting_period sid cs rs = (ws, we)"
    and x: "x \<in> set (merge_intervals (collect_up (set cs) rs))"
  shows "ws \<le> fst x \<and> snd x \<le> we"
proof -
  from merge_ends[OF x] obtain a b
    where a: "a \<in> set (collect_up (set cs) rs)" "fst x = fst a"
      and b: "b \<in> set (collect_up (set cs) rs)" "snd x = snd b"
    by auto
  from collect_up_origin[OF a(1)] obtain ra
    where ra: "ra \<in> set (station_reports cs rs)" "a = (report_start ra, report_end ra)" by blast
  from collect_up_origin[OF b(1)] obtain rb
    where rb: "rb \<in> set (station_reports cs rs)" "b = (report_start rb, report_end rb)" by blast
  have "ws \<le> fst x" using window_bounds(1)[OF w ra(1)] a(2) ra(2) by simp
  moreover have "snd x \<le> we" using window_bounds(2)[OF w rb(1)] b(2) rb(2) by simp
  ultimately show ?thesis by simp
qed

lemma window_nonempty:
  assumes w: "get_station_reporting_period sid cs rs = (ws, we)"
    and v: "valid_reports rs" and ne: "ws \<noteq> we"
  shows "ws < we"
proof -
  have "station_reports cs rs \<noteq> []"
  proof
    assume "station_reports cs rs = []"
    then have "(ws, we) = (0, 0)" using w by (simp add: reporting_period_eq)
    then show False using ne by simp
  qed
  then obtain r where r: "r \<in> set (station_reports cs rs)" by (cases "station_reports cs rs") auto
  then have "r \<in> set rs" by (simp add: station_reports_def)
  then have "report_start r < report_end r" using v by (simp add: valid_reports_def)
  then show ?thesis using window_bounds[OF w r] by linarith
qed

lemma separated_sum_le:
  "separated xs \<Longrightarrow> proper xs \<Longrightarrow> \<forall>x \<in> set xs. lo \<le> fst x \<and> snd x \<le> hi \<Longrightarrow> lo \<le> hi \<Longrightarrow>
   sum_list (map (\<lambda>i. snd i - fst i) xs) \<le> hi - lo"
proof (induction xs arbitrary: lo)
  case Nil
  then show ?case by simp
next
  case (Cons x xs)
  obtain a b where x: "x = (a, b)" by (cases x)
  have ab: "a < b" and pxs: "proper xs" using Cons.prems(2) by (simp_all add: x proper_Cons)
  have above: "\<forall>z \<in> set xs. b < fst z" and sxs: "separated xs"
    using Cons.prems(1) by (simp_all add: x separated_Cons)
  have la: "lo \<le> a" and bh: "b \<le> hi" using Cons.prems(3) by (simp_all add: x)
  have within: "\<forall>z \<in> set xs. b \<le> fst z \<and> snd z \<le> hi"
    using above Cons.prems(3) by fastforce
  have "sum_list (map (\<lambda>i. snd i - fst i) xs) \<le> hi - b"
    by (rule Cons.IH[OF sxs pxs within bh])
  then show ?case using la by (simp add: x)
qed

lemma proper_sum_nonneg: "proper xs \<Longrightarrow> 0 \<le> sum_list (map (\<lambda>i. snd i - fst i) xs)"
proof (induction xs)
  case Nil
  then show ?case by simp
next
  case (Cons x xs)
  obtain a b where x: "x = (a, b)" by (cases x)
  show ?case using Cons by (simp add: x proper_Cons)
qed

lemma clip_within:
  "ws \<le> fst x \<Longrightarrow> snd x \<le> we \<Longrightarrow> clip ws we x = x"
  by (cases x) (simp add: clip_def max_def min_def)

lemma total_up_unclipped:
  assumes w: "get_station_reporting_period sid cs rs = (ws, we)" and v: "valid_reports rs"
  shows "total_up ws we cs rs =
           sum_list (map (\<lambda>i. snd i - fst i) (merge_intervals (collect_up (set cs) rs)))"
proof -
  have p: "proper (merge_intervals (collect_up (set cs) rs))"
    by (rule merge_proper[OF collect_up_proper[OF v]])
  have "\<And>x. x \<in> set (merge_intervals (collect_up (set cs) rs)) \<Longrightarrow>
          duration (clip ws we x) = snd x - fst x"
  proof -
    fix x
    assume x: "x \<in> set (merge_intervals (collect_up (set cs) rs))"
    have c: "clip ws we x = x" using merged_up_within[OF w x] by (simp add: clip_within)
    have "fst x < snd x" using p x by (auto simp: proper_def)
    then show "duration (clip ws we x) = snd x - fst x" by (simp add: c duration_def)
  qed
  then show ?thesis unfolding total_up_def by (simp cong: map_cong)
qed

lemma total_up_bounds:
  assumes w: "get_station_reporting_period sid cs rs = (ws, we)" and v: "valid_reports rs"
    and lt: "ws < we"
  shows "0 \<le> total_up ws we cs rs" and "total_up ws we cs rs \<le> we - ws"
proof -
  have p: "proper (merge_intervals (collect_up (set cs) rs))"
    by (rule merge_proper[OF collect_up_proper[OF v]])
  have within: "\<forall>x \<in> set (merge_intervals (collect_up (set cs) rs)). ws \<le> fst x \<and> snd x \<le> we"
    using merged_up_within[OF w] by blast
  have le: "ws \<le> we" using lt by simp
  show "0 \<le> total_up ws we cs rs"
    using proper_sum_nonneg[OF p] by (simp only: total_up_unclipped[OF w v])
  show "total_up ws we cs rs \<le> we - ws"
    using separated_sum_le[OF merge_separated p within le] by (simp only: total_up_unclipped[OF w v])
qed

lemma percentage_bounds:
  fixes t d :: int
  assumes "0 \<le> t" "t \<le> d" "0 < d"
  shows "0 \<le> t * 100 div d" and "t * 100 div d \<le> 100"
proof -
  show "0 \<le> t * 100 div d" using assms by (simp add: pos_imp_zdiv_nonneg_iff)
  have "t * 100 div d \<le> d * 100 div d" using assms by (intro zdiv_mono1) simp_all
  also have "\<dots> = 100" using assms(3) by simp
  finally show "t * 100 div d \<le> 100" .
qed

lemma unclipped_unfold:
  assumes "get_station_reporting_period station_id charger_ids reports = (ws, we)"
  shows "calculate_station_uptime_unclipped station_id charger_ids reports =
           (if ws = we then Inr 0
            else floordiv (sum_list (map (\<lambda>i. snd i - fst i)
                    (merge_intervals (collect_up (set charger_ids) reports))) * 100) (we - ws))"
  by (simp add: calculate_station_uptime_unclipped_def assms Let_def plain_loop)

subsection \<open>The up time counts the ticks at which the station is up\<close>

lemma collect_up_points: "points (collect_up (set cs) rs) = up_ticks cs rs"
proof (rule set_eqI, rule iffI)
  fix t
  assume "t \<in> points (collect_up (set cs) rs)"
  then obtain x where x: "x \<in> set (collect_up (set cs) rs)" "fst x \<le> t" "t < snd x"
    unfolding points_iff by blast
  from x(1) obtain c s e u where r: "(c, s, e, u) \<in> set rs" "c \<in> set cs" "u" "x = (s, e)"
    by (auto simp: collect_up_def)
  have "\<exists>(charger_id, start_time, end_time, is_up) \<in> set rs.
           charger_id \<in> set cs \<and> is_up \<and> start_time \<le> t \<and> t < end_time"
    using r x(2,3) by (intro bexI[of _ "(c, s, e, u)"]) simp_all
  then show "t \<in> up_ticks cs rs" by (simp add: up_ticks_def)
next
  fix t
  assume "t \<in> up_ticks cs rs"
  then obtain c s e u where r: "(c, s, e, u) \<in> set rs" "c \<in> set cs" "u" "s \<le> t" "t < e"
    by (auto simp: up_ticks_def)
  have "(s, e) \<in> set (collect_up (set cs) rs)"
    using r(1,2,3) by (force simp: collect_up_def)
  then have "\<exists>x \<in> set (collect_up (set cs) rs). fst x \<le> t \<and> t < snd x"
    using r(4,5) by (intro bexI[of _ "(s, e)"]) simp_all
  then show "t \<in> points (collect_up (set cs) rs)" by (simp only: points_iff)
qed

lemma duration_clip_card:
  "duration (clip ws we (a, b)) = int (card ({a..<b} \<inter> {ws..<we}))"
  by (auto simp: duration_def clip_def min_def max_def)

lemma separated_sum_card:
  "separated ys \<Longrightarrow>
   sum_list (map (\<lambda>i. duration (clip ws we i)) ys) = int (card (points ys \<inter> {ws..<we}))"
proof (induction ys)
  case Nil
  show ?case by simp
next
  case (Cons y ys)
  obtain a b where y: "y = (a, b)" by (cases y)
  have above: "\<forall>x \<in> set ys. b < fst x" and s: "separated ys"
    using Cons.prems by (simp_all add: y separated_Cons)
  have disj: "({a..<b} \<inter> {ws..<we}) \<inter> (points ys \<inter> {ws..<we}) = {}"
    using points_above[OF above] by fastforce
  have split: "points (y # ys) \<inter> {ws..<we}
      = ({a..<b} \<inter> {ws..<we}) \<union> (points ys \<inter> {ws..<we})"
    by (auto simp: y points_Cons)
  have "card (({a..<b} \<inter> {ws..<we}) \<union> (points ys \<inter> {ws..<we}))
      = card ({a..<b} \<inter> {ws..<we}) + card (points ys \<inter> {ws..<we})"
    by (rule card_Un_disjoint[OF _ _ disj]) simp_all
  then have "card (points (y # ys) \<inter> {ws..<we})
      = card ({a..<b} \<inter> {ws..<we}) + card (points ys \<inter> {ws..<we})"
    by (simp only: split)
  then show ?case using Cons.IH[OF s] by (simp add: y duration_clip_card)
qed

lemma total_up_card:
  "total_up ws we cs rs = int (card (up_ticks cs rs \<inter> {ws..<we}))"
proof -
  have "total_up ws we cs rs
      = int (card (points (merge_intervals (collect_up (set cs) rs)) \<inter> {ws..<we}))"
    unfolding total_up_def by (rule separated_sum_card[OF merge_separated])
  then show ?thesis by (simp only: merge_points collect_up_points)
qed

subsection \<open>The claims about the percentage\<close>

text \<open>
  Claim C1: when the window has \<open>window_start \<noteq> window_end\<close>,
  \<^verbatim>\<open>calculate_station_uptime\<close> returns the floor of \<open>total_up * 100 / (window_end - window_start)\<close>,
  where \<open>total_up\<close> is the sum of the durations of the merged up intervals of the station
  after clipping to the window. That sum is the number of ticks of the window at which some
  charger of the station reports up (each tick once, however many reports cover it), and
  every list of strictly separated intervals that covers exactly those ticks gives the same
  sum. An up time of 10 over a span of 30 gives 33.
\<close>

theorem uptime_is_floor_of_ratio:
  assumes "get_station_reporting_period station_id charger_ids reports = (window_start, window_end)"
    and "window_start \<noteq> window_end"
  shows "calculate_station_uptime station_id charger_ids reports =
           Inr \<lfloor>real_of_int (total_up window_start window_end charger_ids reports * 100)
                  / real_of_int (window_end - window_start)\<rfloor>
         \<and> total_up window_start window_end charger_ids reports
             = int (card (up_ticks charger_ids reports \<inter> {window_start..<window_end}))
         \<and> (\<forall>merged. separated merged \<and> points merged = up_ticks charger_ids reports \<longrightarrow>
               sum_list (map (\<lambda>i. duration (clip window_start window_end i)) merged)
                 = total_up window_start window_end charger_ids reports)
         \<and> (total_up window_start window_end charger_ids reports = 10 \<and> window_end - window_start = 30
              \<longrightarrow> calculate_station_uptime station_id charger_ids reports = Inr 33)"
proof -
  have ne: "window_end - window_start \<noteq> 0" using assms(2) by simp
  have c: "calculate_station_uptime station_id charger_ids reports =
      Inr (total_up window_start window_end charger_ids reports * 100 div (window_end - window_start))"
    using assms(2) ne by (simp add: calculate_unfold[OF assms(1)] floordiv_def)
  have f: "\<lfloor>real_of_int (total_up window_start window_end charger_ids reports * 100)
                  / real_of_int (window_end - window_start)\<rfloor>
      = total_up window_start window_end charger_ids reports * 100 div (window_end - window_start)"
    by (rule floor_divide_of_int_eq)
  have r: "calculate_station_uptime station_id charger_ids reports =
           Inr \<lfloor>real_of_int (total_up window_start window_end charger_ids reports * 100)
                  / real_of_int (window_end - window_start)\<rfloor>"
    by (simp only: c f)
  have k: "total_up window_start window_end charger_ids reports
             = int (card (up_ticks charger_ids reports \<inter> {window_start..<window_end}))"
    by (rule total_up_card)
  have u: "\<forall>merged. separated merged \<and> points merged = up_ticks charger_ids reports \<longrightarrow>
               sum_list (map (\<lambda>i. duration (clip window_start window_end i)) merged)
                 = total_up window_start window_end charger_ids reports"
  proof (intro allI impI, elim conjE)
    fix merged
    assume s: "separated merged" and p: "points merged = up_ticks charger_ids reports"
    have "sum_list (map (\<lambda>i. duration (clip window_start window_end i)) merged)
        = int (card (points merged \<inter> {window_start..<window_end}))"
      by (rule separated_sum_card[OF s])
    then show "sum_list (map (\<lambda>i. duration (clip window_start window_end i)) merged)
                 = total_up window_start window_end charger_ids reports"
      by (simp only: p k)
  qed
  have t: "total_up window_start window_end charger_ids reports = 10 \<and> window_end - window_start = 30
              \<longrightarrow> calculate_station_uptime station_id charger_ids reports = Inr 33"
    by (simp add: c)
  show ?thesis using r k u t by (intro conjI)
qed

theorem uptime_is_floor_of_ratio_witness:
  "get_station_reporting_period 0 [1001]
       [(1001, 0, 10, True), (1001, 5, 10, True), (2002, 0, 30, True), (1001, 20, 30, False)] = (0, 30) \<and>
   total_up 0 30 [1001]
       [(1001, 0, 10, True), (1001, 5, 10, True), (2002, 0, 30, True), (1001, 20, 30, False)] = 10 \<and>
   int (card (up_ticks [1001]
       [(1001, 0, 10, True), (1001, 5, 10, True), (2002, 0, 30, True), (1001, 20, 30, False)]
         \<inter> {0..<30})) = 10 \<and>
   calculate_station_uptime 0 [1001]
       [(1001, 0, 10, True), (1001, 5, 10, True), (2002, 0, 30, True), (1001, 20, 30, False)] = Inr 33"
proof -
  let ?R = "[(1001, 0, 10, True), (1001, 5, 10, True), (2002, 0, 30, True), (1001, 20, 30, False)]
              :: report list"
  have w: "get_station_reporting_period 0 [1001] ?R = (0, 30)"
    by (simp add: get_station_reporting_period_def)
  have n: "(0::int) \<noteq> 30" by simp
  have t: "total_up 0 30 [1001] ?R = 10"
    by (simp add: total_up_def collect_up_def merge_intervals_def merge_loop_def clip_def duration_def)
  note th = uptime_is_floor_of_ratio[OF w n]
  have k: "int (card (up_ticks [1001] ?R \<inter> {0..<30})) = 10"
    using th[THEN conjunct2, THEN conjunct1] by (simp only: t)
  have r: "calculate_station_uptime 0 [1001] ?R = Inr 33"
    using th[THEN conjunct1] by (simp add: t)
  show ?thesis using w t k r by (intro conjI)
qed

text \<open>
  Claim C5: when the window has equal start and end, and in particular when no report
  belongs to the station (the window is then \<open>(0, 0)\<close>), \<^verbatim>\<open>calculate_station_uptime\<close>
  returns 0 and raises nothing.
\<close>

theorem degenerate_window_gives_zero:
  "(fst (get_station_reporting_period station_id charger_ids reports)
      = snd (get_station_reporting_period station_id charger_ids reports)
    \<longrightarrow> calculate_station_uptime station_id charger_ids reports = Inr 0)
   \<and> (station_reports charger_ids reports = []
    \<longrightarrow> get_station_reporting_period station_id charger_ids reports = (0, 0)
        \<and> calculate_station_uptime station_id charger_ids reports = Inr 0)"
proof (rule conjI)
  show "fst (get_station_reporting_period station_id charger_ids reports)
      = snd (get_station_reporting_period station_id charger_ids reports)
    \<longrightarrow> calculate_station_uptime station_id charger_ids reports = Inr 0"
    by (cases "get_station_reporting_period station_id charger_ids reports")
       (simp add: calculate_station_uptime_def)
next
  show "station_reports charger_ids reports = []
    \<longrightarrow> get_station_reporting_period station_id charger_ids reports = (0, 0)
        \<and> calculate_station_uptime station_id charger_ids reports = Inr 0"
    by (simp add: calculate_station_uptime_def get_station_reporting_period_def period_loop_None)
qed

theorem degenerate_window_gives_zero_witness:
  "get_station_reporting_period 0 [1001] [] = (0, 0) \<and>
   calculate_station_uptime 0 [1001] [] = Inr 0 \<and>
   get_station_reporting_period 1 [1003] [(1003, 7, 7, True), (1004, 0, 9, True)] = (7, 7) \<and>
   calculate_station_uptime 1 [1003] [(1003, 7, 7, True), (1004, 0, 9, True)] = Inr 0"
proof -
  have a: "station_reports [1001] [] = []" by (simp add: station_reports_def)
  have b: "get_station_reporting_period 1 [1003] [(1003, 7, 7, True), (1004, 0, 9, True)] = (7, 7)"
    by (simp add: get_station_reporting_period_def)
  show ?thesis
    using a b degenerate_window_gives_zero[of 0 "[1001]" "[]"]
      degenerate_window_gives_zero[of 1 "[1003]" "[(1003, 7, 7, True), (1004, 0, 9, True)]"]
    by simp
qed
text \<open>
  Claim C6: when every report has \<open>start < end\<close>, \<^verbatim>\<open>calculate_station_uptime\<close> returns
  an integer between 0 and 100.
\<close>

theorem uptime_in_range:
  assumes "valid_reports reports"
  shows "\<exists>p. calculate_station_uptime station_id charger_ids reports = Inr p \<and> 0 \<le> p \<and> p \<le> 100"
proof -
  obtain ws we where w: "get_station_reporting_period station_id charger_ids reports = (ws, we)"
    by (cases "get_station_reporting_period station_id charger_ids reports")
  show ?thesis
  proof (cases "ws = we")
    case True
    then show ?thesis by (simp add: calculate_unfold[OF w])
  next
    case False
    have lt: "ws < we" by (rule window_nonempty[OF w assms False])
    have d: "0 < we - ws" using lt by simp
    have c: "calculate_station_uptime station_id charger_ids reports =
        Inr (total_up ws we charger_ids reports * 100 div (we - ws))"
      using False by (simp add: calculate_unfold[OF w] floordiv_def)
    show ?thesis
      using percentage_bounds[OF total_up_bounds[OF w assms lt] d] by (simp add: c)
  qed
qed

theorem uptime_in_range_witness:
  "valid_reports [(1004, 0, 50, True), (1004, 100, 200, True)] \<and>
   calculate_station_uptime 2 [1004] [(1004, 0, 50, True), (1004, 100, 200, True)] = Inr 75 \<and>
   (\<exists>p. calculate_station_uptime 2 [1004] [(1004, 0, 50, True), (1004, 100, 200, True)] = Inr p
        \<and> 0 \<le> p \<and> p \<le> 100)"
proof -
  have v: "valid_reports [(1004, 0, 50, True), (1004, 100, 200, True)]"
    by (simp add: valid_reports_def report_start_def report_end_def)
  have c: "calculate_station_uptime 2 [1004] [(1004, 0, 50, True), (1004, 100, 200, True)] = Inr 75"
    by (simp add: calculate_station_uptime_def get_station_reporting_period_def collect_up_def
        merge_intervals_def merge_loop_def floordiv_def)
  show ?thesis using v c uptime_in_range[OF v, of 2 "[1004]"] by blast
qed

text \<open>
  Claim C9: when every report has \<open>start < end\<close>, every merged up interval of the station
  lies inside the window, so clipping leaves it as it is and discards nothing, and
  \<^verbatim>\<open>calculate_station_uptime\<close> equals the variant that sums the merged lengths without
  clipping.
\<close>

theorem clipping_is_redundant:
  assumes "valid_reports reports"
  shows "(\<forall>i \<in> set (merge_intervals (collect_up (set charger_ids) reports)).
            fst (get_station_reporting_period station_id charger_ids reports) \<le> fst i \<and>
            snd i \<le> snd (get_station_reporting_period station_id charger_ids reports) \<and>
            fst i < snd i \<and>
            clip (fst (get_station_reporting_period station_id charger_ids reports))
                 (snd (get_station_reporting_period station_id charger_ids reports)) i = i)
         \<and> calculate_station_uptime station_id charger_ids reports
             = calculate_station_uptime_unclipped station_id charger_ids reports"
proof -
  obtain ws we where w: "get_station_reporting_period station_id charger_ids reports = (ws, we)"
    by (cases "get_station_reporting_period station_id charger_ids reports")
  have p: "proper (merge_intervals (collect_up (set charger_ids) reports))"
    by (rule merge_proper[OF collect_up_proper[OF assms]])
  have inside: "\<forall>i \<in> set (merge_intervals (collect_up (set charger_ids) reports)).
      ws \<le> fst i \<and> snd i \<le> we \<and> fst i < snd i \<and> clip ws we i = i"
  proof
    fix i
    assume i: "i \<in> set (merge_intervals (collect_up (set charger_ids) reports))"
    have b: "ws \<le> fst i \<and> snd i \<le> we" by (rule merged_up_within[OF w i])
    moreover have "fst i < snd i" using p i by (auto simp: proper_def)
    moreover have "clip ws we i = i" using b by (simp add: clip_within)
    ultimately show "ws \<le> fst i \<and> snd i \<le> we \<and> fst i < snd i \<and> clip ws we i = i" by simp
  qed
  have "calculate_station_uptime station_id charger_ids reports
      = calculate_station_uptime_unclipped station_id charger_ids reports"
    by (simp only: calculate_unfold[OF w] unclipped_unfold[OF w] total_up_unclipped[OF w assms])
  then show ?thesis using inside by (simp add: w)
qed

theorem clipping_is_redundant_witness:
  "valid_reports [(1001, 0, 100, True), (1002, 50, 150, False), (1001, 90, 120, True)] \<and>
   merge_intervals (collect_up (set [1001, 1002])
       [(1001, 0, 100, True), (1002, 50, 150, False), (1001, 90, 120, True)]) = [(0, 120)] \<and>
   get_station_reporting_period 0 [1001, 1002]
       [(1001, 0, 100, True), (1002, 50, 150, False), (1001, 90, 120, True)] = (0, 150) \<and>
   calculate_station_uptime_unclipped 0 [1001, 1002]
       [(1001, 0, 100, True), (1002, 50, 150, False), (1001, 90, 120, True)] = Inr 80 \<and>
   calculate_station_uptime 0 [1001, 1002]
       [(1001, 0, 100, True), (1002, 50, 150, False), (1001, 90, 120, True)] = Inr 80"
proof -
  have v: "valid_reports [(1001, 0, 100, True), (1002, 50, 150, False), (1001, 90, 120, True)]"
    by (simp add: valid_reports_def report_start_def report_end_def)
  have m: "merge_intervals (collect_up (set [1001, 1002])
       [(1001, 0, 100, True), (1002, 50, 150, False), (1001, 90, 120, True)]) = [(0, 120)]"
    by (simp add: collect_up_def merge_intervals_def merge_loop_def)
  have g: "get_station_reporting_period 0 [1001, 1002]
       [(1001, 0, 100, True), (1002, 50, 150, False), (1001, 90, 120, True)] = (0, 150)"
    by (simp add: get_station_reporting_period_def)
  have u: "calculate_station_uptime_unclipped 0 [1001, 1002]
       [(1001, 0, 100, True), (1002, 50, 150, False), (1001, 90, 120, True)] = Inr 80"
    by (simp add: calculate_station_uptime_unclipped_def g m floordiv_def del: set_simps)
  show ?thesis
    using v m g u clipping_is_redundant[OF v, of "[1001, 1002]" 0] by simp
qed

text \<open>
  Claim C10: the \<^verbatim>\<open>station_id\<close> argument of \<^verbatim>\<open>calculate_station_uptime\<close> has no
  influence on the result.
\<close>

theorem station_id_not_used:
  "calculate_station_uptime station_id charger_ids reports =
   calculate_station_uptime station_id' charger_ids reports"
  by (simp add: calculate_station_uptime_def get_station_reporting_period_def)

section \<open>Properties of the fleet evaluator\<close>

text \<open>
  \<^verbatim>\<open>calculate_station_uptime\<close> raises nothing, so the loop of lines 207-210 reaches every
  station; \<^verbatim>\<open>main\<close> then prints the sorted results. Before that loop, lines 192-204 stop
  the program with \<^verbatim>\<open>ERROR\<close> when a report names a charger that no station lists.
\<close>

lemma calculate_returns:
  "\<exists>p. calculate_station_uptime station_id charger_ids reports = Inr p"
proof -
  obtain ws we where w: "get_station_reporting_period station_id charger_ids reports = (ws, we)"
    by (cases "get_station_reporting_period station_id charger_ids reports")
  show ?thesis by (simp add: calculate_unfold[OF w] floordiv_def)
qed

lemma collect_results_eq:
  "collect_results stations reports results =
     Inr (results @ map (\<lambda>(station_id, charger_ids).
            (station_id, projr (calculate_station_uptime station_id charger_ids reports))) stations)"
proof (induction stations arbitrary: results)
  case Nil
  show ?case by simp
next
  case (Cons s stations)
  obtain station_id charger_ids where s: "s = (station_id, charger_ids)" by (cases s)
  obtain p where p: "calculate_station_uptime station_id charger_ids reports = Inr p"
    using calculate_returns by blast
  show ?case using Cons.IH[of "results @ [(station_id, p)]"] by (simp add: s p)
qed

lemma main_body_checked:
  assumes "set (map fst reports) \<subseteq> set (concat (map snd stations))"
  shows "main_body stations reports =
     Inr (sort (map (\<lambda>(station_id, charger_ids).
            (station_id, projr (calculate_station_uptime station_id charger_ids reports))) stations))"
proof -
  have "\<not> (\<exists>charger_id \<in> set (map fst reports). charger_id \<notin> set (concat (map snd stations)))"
    using assms by blast
  then show ?thesis unfolding main_body_def Let_def by (simp only: if_False collect_results_eq) simp
qed

lemma main_body_rejected:
  assumes "\<not> set (map fst reports) \<subseteq> set (concat (map snd stations))"
  shows "main_body stations reports = Inl ERROR"
proof -
  have "\<exists>charger_id \<in> set (map fst reports). charger_id \<notin> set (concat (map snd stations))"
    using assms by blast
  then show ?thesis unfolding main_body_def Let_def by (simp only: if_True)
qed

lemma main_parsed:
  assumes "length argv = 2" and "parse_input_file env (argv ! 1) = Inr (stations, reports)"
  shows "main env argv = main_body stations reports"
  using assms by (simp add: main_def)

lemma map_fst_sort: "map fst (sort (xs :: (int \<times> int) list)) = sort (map fst xs)"
proof -
  have "sort (map fst xs) = map fst (sort xs)"
    by (rule properties_for_sort) (simp_all add: sorted_fst_sort)
  then show ?thesis by simp
qed

lemma station_chargers_cong_mset:
  assumes "mset stations' = mset (stations :: (int \<times> int list) list)"
  shows "set (concat (map snd stations')) = set (concat (map snd stations))"
  using mset_eq_setD[OF assms] by simp

text \<open>
  What \<^verbatim>\<open>parse_input_file\<close> guarantees when it returns: each station id once, no empty
  charger list (lines 55-57), and \<open>start_time < end_time\<close> in every report (lines 80-82).
\<close>

lemma update_member:
  "x \<in> set (AList.update k v al) \<Longrightarrow> x = (k, v) \<or> x \<in> set al"
  by (induction al) (auto split: if_splits)

lemma those_length: "those xs = Some ys \<Longrightarrow> length ys = length xs"
  by (induction xs arbitrary: ys) (auto split: option.splits)

lemma parse_stations_keeps:
  "parse_stations env ls acc = Inr stations \<Longrightarrow>
   distinct (map fst acc) \<Longrightarrow> \<forall>s \<in> set acc. snd s \<noteq> [] \<Longrightarrow>
   distinct (map fst stations) \<and> (\<forall>s \<in> set stations. snd s \<noteq> [])"
proof (induction ls arbitrary: acc)
  case Nil
  then show ?case by simp
next
  case (Cons line rest)
  let ?parts = "py_split env line"
  from Cons.prems(1) have len: "\<not> length ?parts < 2"
    by (auto simp: Let_def split: if_splits)
  from Cons.prems(1) len obtain station_id charger_ids where
    sid: "py_int env (?parts ! 0) = Some station_id"
    and cs: "those (map (py_int env) (tl ?parts)) = Some charger_ids"
    and rec: "parse_stations env rest (AList.update station_id charger_ids acc) = Inr stations"
    by (auto simp: Let_def split: if_splits option.splits)
  have "length charger_ids = length (tl ?parts)" using those_length[OF cs] by simp
  then have ne: "charger_ids \<noteq> []" using len by auto
  have d: "distinct (map fst (AList.update station_id charger_ids acc))"
    using Cons.prems(2) by (rule distinct_update)
  have n: "\<forall>s \<in> set (AList.update station_id charger_ids acc). snd s \<noteq> []"
    using Cons.prems(3) ne update_member[of _ station_id charger_ids acc] by fastforce
  show ?case by (rule Cons.IH[OF rec d n])
qed

lemma parse_reports_keeps:
  "parse_reports env ls acc = Inr reports \<Longrightarrow> valid_reports acc \<Longrightarrow> valid_reports reports"
proof (induction ls arbitrary: acc)
  case Nil
  then show ?case by simp
next
  case (Cons line rest)
  let ?parts = "py_split env line"
  from Cons.prems(1) obtain charger_id start_time end_time where
    nle: "\<not> end_time \<le> start_time"
    and rec: "parse_reports env rest
        (acc @ [(charger_id, start_time, end_time, py_lower env (?parts ! 3) = ''true'')]) = Inr reports"
    by (auto simp: Let_def split: if_splits option.splits)
  have "valid_reports (acc @ [(charger_id, start_time, end_time, py_lower env (?parts ! 3) = ''true'')])"
    using Cons.prems(2) nle by (auto simp: valid_reports_def report_start_def report_end_def)
  then show ?case by (rule Cons.IH[OF rec])
qed

lemma parse_input_file_guarantees:
  assumes "parse_input_file env filepath = Inr (stations, reports)"
  shows "distinct (map fst stations)" and "\<forall>s \<in> set stations. snd s \<noteq> []"
    and "valid_reports reports"
proof -
  from assms obtain ls ls' where
    s: "parse_stations env ls [] = Inr stations" and r: "parse_reports env ls' [] = Inr reports"
    unfolding parse_input_file_def Let_def
    by (auto split: option.splits if_splits prod.splits sum.splits)
  have "distinct (map fst stations) \<and> (\<forall>s \<in> set stations. snd s \<noteq> [])"
    by (rule parse_stations_keeps[OF s]) simp_all
  then show "distinct (map fst stations)" and "\<forall>s \<in> set stations. snd s \<noteq> []" by simp_all
  show "valid_reports reports"
    by (rule parse_reports_keeps[OF r]) (simp add: valid_reports_def)
qed

text \<open>
  Claim C4: for a station mapping and a report list in which every reported charger belongs
  to some station, the program prints exactly one pair per station of the mapping (a station
  with an empty list or without reports included), each with the percentage of
  \<^verbatim>\<open>calculate_station_uptime\<close>, in ascending order of station id, and the same sequence
  for every iteration order of the mapping. This holds of \<open>main_body\<close> on every mapping, and
  of \<^verbatim>\<open>main\<close> whenever \<^verbatim>\<open>parse_input_file\<close> returns that mapping and report list.
\<close>

theorem fleet_results:
  assumes "distinct (map fst stations)"
    and "set (map fst reports) \<subseteq> set (concat (map snd stations))"
  shows "\<exists>results. main_body stations reports = Inr results
           \<and> map fst results = sort (map fst stations)
           \<and> sorted (map fst results)
           \<and> distinct (map fst results)
           \<and> length results = length stations
           \<and> (\<forall>(station_id, percentage) \<in> set results. \<exists>charger_ids.
                 (station_id, charger_ids) \<in> set stations \<and>
                 calculate_station_uptime station_id charger_ids reports = Inr percentage)
           \<and> (\<forall>stations'. mset stations' = mset stations \<longrightarrow>
                 main_body stations' reports = Inr results)
           \<and> (\<forall>env argv. length argv = 2 \<and> parse_input_file env (argv ! 1) = Inr (stations, reports)
                 \<longrightarrow> main env argv = Inr results)
           \<and> (\<forall>env argv stations'. length argv = 2 \<and> mset stations' = mset stations \<and>
                 parse_input_file env (argv ! 1) = Inr (stations', reports)
                 \<longrightarrow> main env argv = Inr results)"
proof -
  let ?row = "\<lambda>(station_id, charger_ids).
      (station_id, projr (calculate_station_uptime station_id charger_ids reports))"
  let ?results = "sort (map ?row stations)"
  have ids: "map fst (map ?row stations) = map fst stations"
    by (simp add: case_prod_beta)
  have m: "main_body stations reports = Inr ?results" by (rule main_body_checked[OF assms(2)])
  have f: "map fst ?results = sort (map fst stations)" by (simp only: map_fst_sort ids)
  have s: "sorted (map fst ?results)" by (simp only: f sorted_sort)
  have d: "distinct (map fst ?results)" using assms(1) by (simp only: f distinct_sort)
  have l: "length ?results = length stations" by simp
  have r: "\<forall>(station_id, percentage) \<in> set ?results. \<exists>charger_ids.
                 (station_id, charger_ids) \<in> set stations \<and>
                 calculate_station_uptime station_id charger_ids reports = Inr percentage"
  proof
    fix x
    assume "x \<in> set ?results"
    then obtain station_id charger_ids where
      sc: "(station_id, charger_ids) \<in> set stations"
      and x: "x = (station_id, projr (calculate_station_uptime station_id charger_ids reports))"
      by auto
    obtain p where p: "calculate_station_uptime station_id charger_ids reports = Inr p"
      using calculate_returns by blast
    show "case x of (station_id, percentage) \<Rightarrow> \<exists>charger_ids.
                 (station_id, charger_ids) \<in> set stations \<and>
                 calculate_station_uptime station_id charger_ids reports = Inr percentage"
      using sc by (auto simp: x p)
  qed
  have o: "\<forall>stations'. mset stations' = mset stations \<longrightarrow> main_body stations' reports = Inr ?results"
  proof (intro allI impI)
    fix stations'
    assume e: "mset stations' = mset stations"
    have "set (map fst reports) \<subseteq> set (concat (map snd stations'))"
      using assms(2) by (simp only: station_chargers_cong_mset[OF e])
    then have "main_body stations' reports = Inr (sort (map ?row stations'))"
      by (rule main_body_checked)
    moreover have "sort (map ?row stations') = sort (map ?row stations)"
      by (rule sort_cong_mset) (simp add: e)
    ultimately show "main_body stations' reports = Inr ?results" by (simp only:)
  qed
  have p: "\<forall>env argv. length argv = 2 \<and> parse_input_file env (argv ! 1) = Inr (stations, reports)
                 \<longrightarrow> main env argv = Inr ?results"
  proof (intro allI impI, elim conjE)
    fix env argv
    assume "length argv = 2" and "parse_input_file env (argv ! 1) = Inr (stations, reports)"
    then have "main env argv = main_body stations reports" by (rule main_parsed)
    then show "main env argv = Inr ?results" by (simp only: m)
  qed
  have q: "\<forall>env argv stations'. length argv = 2 \<and> mset stations' = mset stations \<and>
                 parse_input_file env (argv ! 1) = Inr (stations', reports)
                 \<longrightarrow> main env argv = Inr ?results"
  proof (intro allI impI, elim conjE)
    fix env argv stations'
    assume a: "length argv = 2" and e: "mset stations' = mset stations"
      and b: "parse_input_file env (argv ! 1) = Inr (stations', reports)"
    have "main env argv = main_body stations' reports" by (rule main_parsed[OF a b])
    then show "main env argv = Inr ?results" using o e by simp
  qed
  show ?thesis using m f s d l r o p q by (intro exI[of _ ?results] conjI)
qed

theorem fleet_results_witness:
  "distinct (map fst ([(1, [1003]), (2, [1004]), (0, [1001, 1002])] :: (int \<times> int list) list)) \<and>
   set (map fst ([(1001, 0, 100, True), (1002, 50, 150, False), (1003, 25, 75, True)] :: report list))
     \<subseteq> set (concat (map snd ([(1, [1003]), (2, [1004]), (0, [1001, 1002])] :: (int \<times> int list) list))) \<and>
   main_body [(1, [1003]), (2, [1004]), (0, [1001, 1002])]
        [(1001, 0, 100, True), (1002, 50, 150, False), (1003, 25, 75, True)]
     = Inr [(0, 66), (1, 100), (2, 0)] \<and>
   main_body [(0, [1001, 1002]), (1, [1003]), (2, [1004])]
        [(1001, 0, 100, True), (1002, 50, 150, False), (1003, 25, 75, True)]
     = Inr [(0, 66), (1, 100), (2, 0)] \<and>
   (\<exists>env argv. length argv = 2 \<and>
      parse_input_file env (argv ! 1)
        = Inr ([(1, [1003]), (2, [1004]), (0, [1001, 1002])],
               [(1001, 0, 100, True), (1002, 50, 150, False), (1003, 25, 75, True)]) \<and>
      main env argv = Inr [(0, 66), (1, 100), (2, 0)])"
proof -
  let ?S = "[(1, [1003]), (2, [1004]), (0, [1001, 1002])] :: (int \<times> int list) list"
  let ?S' = "[(0, [1001, 1002]), (1, [1003]), (2, [1004])] :: (int \<times> int list) list"
  let ?R = "[(1001, 0, 100, True), (1002, 50, 150, False), (1003, 25, 75, True)] :: report list"
  have d: "distinct (map fst ?S)" by simp
  have v: "set (map fst ?R) \<subseteq> set (concat (map snd ?S))" by simp
  have c0: "calculate_station_uptime 0 [1001, 1002] ?R = Inr 66"
    by (simp add: calculate_station_uptime_def get_station_reporting_period_def collect_up_def
        merge_intervals_def merge_loop_def floordiv_def)
  have c1: "calculate_station_uptime 1 [1003] ?R = Inr 100"
    by (simp add: calculate_station_uptime_def get_station_reporting_period_def collect_up_def
        merge_intervals_def merge_loop_def floordiv_def)
  have c2: "calculate_station_uptime 2 [1004] ?R = Inr 0"
    by (simp add: calculate_station_uptime_def get_station_reporting_period_def)
  have m: "main_body ?S ?R = Inr [(0, 66), (1, 100), (2, 0)]"
    unfolding main_body_def Let_def by (simp add: c0 c1 c2)
  have e: "mset ?S' = mset ?S" by (simp add: add_mset_commute)
  from fleet_results[OF d v] obtain results where
    r: "main_body ?S ?R = Inr results"
    and o: "\<forall>stations'. mset stations' = mset ?S \<longrightarrow> main_body stations' ?R = Inr results"
    and p: "\<forall>env argv. length argv = 2 \<and> parse_input_file env (argv ! 1) = Inr (?S, ?R)
                 \<longrightarrow> main env argv = Inr results"
    by blast
  have res: "results = [(0, 66), (1, 100), (2, 0)]" using r m by simp
  have m': "main_body ?S' ?R = Inr [(0, 66), (1, 100), (2, 0)]" using o e res by blast
  define content where "content =
     ''[Stations]'' @ [CHR 0x0A] @ ''1 1003'' @ [CHR 0x0A] @ ''2 1004'' @ [CHR 0x0A] @
     ''0 1001 1002'' @ [CHR 0x0A] @ [CHR 0x0A] @ ''[Charger Availability Reports]'' @ [CHR 0x0A] @
     ''1001 0 100 true'' @ [CHR 0x0A] @ ''1002 50 150 false'' @ [CHR 0x0A] @ ''1003 25 75 true''"
  define to_int where "to_int = (\<lambda>s :: string.
     if s = ''0'' then Some (0 :: int) else if s = ''1'' then Some 1 else if s = ''2'' then Some 2
     else if s = ''25'' then Some 25 else if s = ''50'' then Some 50 else if s = ''75'' then Some 75
     else if s = ''100'' then Some 100 else if s = ''150'' then Some 150
     else if s = ''1001'' then Some 1001 else if s = ''1002'' then Some 1002
     else if s = ''1003'' then Some 1003 else if s = ''1004'' then Some 1004 else None)"
  define env where "env = \<lparr>py_read = (\<lambda>path. Some content), py_strip = (\<lambda>s. s),
     py_split = split_sep CHR '' '', py_int = to_int, py_lower = (\<lambda>s. s)\<rparr>"
  define argv where "argv = [''charger_uptime.py'', ''input.txt'']"
  have la: "length argv = 2" by (simp add: argv_def)
  have lines: "split_sep CHR 0x0A content =
     [''[Stations]'', ''1 1003'', ''2 1004'', ''0 1001 1002'', '''',
      ''[Charger Availability Reports]'', ''1001 0 100 true'', ''1002 50 150 false'',
      ''1003 25 75 true'']"
    by (simp add: content_def)
  have sp: "split_sep CHR '' '' ''1 1003'' = [''1'', ''1003'']"
    "split_sep CHR '' '' ''2 1004'' = [''2'', ''1004'']"
    "split_sep CHR '' '' ''0 1001 1002'' = [''0'', ''1001'', ''1002'']"
    "split_sep CHR '' '' ''1001 0 100 true'' = [''1001'', ''0'', ''100'', ''true'']"
    "split_sep CHR '' '' ''1002 50 150 false'' = [''1002'', ''50'', ''150'', ''false'']"
    "split_sep CHR '' '' ''1003 25 75 true'' = [''1003'', ''25'', ''75'', ''true'']"
    by simp_all
  have ps: "parse_stations env [''1 1003'', ''2 1004'', ''0 1001 1002''] [] = Inr ?S"
    by (simp add: env_def sp to_int_def)
  have pr: "parse_reports env [''1001 0 100 true'', ''1002 50 150 false'', ''1003 25 75 true''] []
      = Inr ?R"
    by (simp add: env_def sp to_int_def)
  have up1: "[1..3] = [1, 2, 3 :: int]" and up2: "[5..7] = [5, 6, 7 :: int]"
    by (simp_all add: upto.simps)
  have pf: "parse_input_file env (argv ! 1) = Inr (?S, ?R)"
    unfolding parse_input_file_def
    by (simp add: env_def lines up1 up2 ps[unfolded env_def] pr[unfolded env_def] Let_def
          del: parse_stations.simps parse_reports.simps)
  have mn: "main env argv = Inr [(0, 66), (1, 100), (2, 0)]"
    using p la pf res by blast
  have ex: "\<exists>env argv. length argv = 2 \<and> parse_input_file env (argv ! 1) = Inr (?S, ?R) \<and>
      main env argv = Inr [(0, 66), (1, 100), (2, 0)]"
    using la pf mn by blast
  show ?thesis using d v m m' ex by (intro conjI)
qed

end
